theory Spec2Isabelle
  imports
    Main
    "HOL-Library.AList"
    "HOL-Library.Char_ord"
    "HOL-Library.List_Lexorder"
    "HOL-Library.Sublist"
begin

section \<open>Python strings\<close>

text \<open>
  Strings are lists of characters with code points below 256. The operations of Python's
  \<open>str\<close> that \<open>main.py\<close> calls are written out here: \<open>str.isspace\<close>, \<open>strip\<close>,
  \<open>split\<close> without arguments, \<open>splitlines\<close>, \<open>startswith\<close>, \<open>endswith\<close>,
  \<open>"sep".join\<close>, the slices \<open>s[:-1]\<close> and \<open>s[:-2]\<close>, and \<open>s.split("//", 1)[0]\<close>.
\<close>

definition dquote :: char where
  "dquote = CHR 0x22"

definition isspace :: "char \<Rightarrow> bool" where
  "isspace c \<longleftrightarrow> c \<in> {CHR 0x09, CHR 0x0A, CHR 0x0B, CHR 0x0C, CHR 0x0D,
                      CHR 0x1C, CHR 0x1D, CHR 0x1E, CHR 0x1F, CHR 0x20, CHR 0x85, CHR 0xA0}"

definition is_linebreak :: "char \<Rightarrow> bool" where
  "is_linebreak c \<longleftrightarrow> c \<in> {CHR 0x0A, CHR 0x0B, CHR 0x0C, CHR 0x0D,
                           CHR 0x1C, CHR 0x1D, CHR 0x1E, CHR 0x85}"

definition strip :: "string \<Rightarrow> string" where
  "strip s = rev (dropWhile isspace (rev (dropWhile isspace s)))"

function split_ws :: "string \<Rightarrow> string list" where
  "split_ws [] = []"
| "split_ws (c # cs) =
     (if isspace c then split_ws cs
      else (c # takeWhile (\<lambda>x. \<not> isspace x) cs) # split_ws (dropWhile (\<lambda>x. \<not> isspace x) cs))"
  by pat_completeness auto
termination
  by (relation "measure length") (auto simp: length_dropWhile_le less_Suc_eq_le)

fun splitlines :: "string \<Rightarrow> string list" where
  "splitlines [] = []"
| "splitlines (c # cs) =
     (if c = CHR 0x0D then
        (case cs of
           [] \<Rightarrow> [[]]
         | d # ds \<Rightarrow> if d = CHR 0x0A then [] # splitlines ds else [] # splitlines cs)
      else if is_linebreak c then [] # splitlines cs
      else (case splitlines cs of [] \<Rightarrow> [[c]] | l # ls \<Rightarrow> (c # l) # ls))"

definition startswith :: "string \<Rightarrow> string \<Rightarrow> bool" where
  "startswith s p \<longleftrightarrow> take (length p) s = p"

definition endswith :: "string \<Rightarrow> string \<Rightarrow> bool" where
  "endswith s p \<longleftrightarrow> length p \<le> length s \<and> drop (length s - length p) s = p"

fun join :: "string \<Rightarrow> string list \<Rightarrow> string" where
  "join sep [] = []"
| "join sep [x] = x"
| "join sep (x # y # ys) = x @ sep @ join sep (y # ys)"

text \<open>\<open>"//" in line\<close>\<close>

fun has_marker :: "string \<Rightarrow> bool" where
  "has_marker (c # d # r) = ((c = CHR ''/'' \<and> d = CHR ''/'') \<or> has_marker (d # r))"
| "has_marker _ = False"

text \<open>\<open>line.split("//", 1)[0]\<close>: the text before the first occurrence of the marker.\<close>

fun before_marker :: "string \<Rightarrow> string" where
  "before_marker (c # d # r) =
     (if c = CHR ''/'' \<and> d = CHR ''/'' then [] else c # before_marker (d # r))"
| "before_marker s = s"

section \<open>Data structures\<close>

datatype py_error = IndexError

record EnumDef =
  name :: string
  enum_values :: "string list"

record FieldDef =
  name :: string
  type_name :: string
  is_optional :: bool
  is_list :: bool
  raw_line :: string

record ModelDef =
  name :: string
  model_fields :: "FieldDef list"
  schema :: "string option"

text \<open>
  A Python \<open>dict\<close> keeps its keys in insertion order, and storing under a key that is
  present replaces the value where it stands: an association list with \<open>AList.update\<close>.
\<close>

type_synonym enum_dict = "(string \<times> EnumDef) list"
type_synonym model_dict = "(string \<times> ModelDef) list"

section \<open>Parsing helpers\<close>

definition SCALAR_TS_MAP :: "(string \<times> string) list" where
  "SCALAR_TS_MAP =
     [(''String'', ''string''),
      (''Int'', ''number''),
      (''Float'', ''number''),
      (''Boolean'', ''boolean''),
      (''DateTime'', ''DateTimeString''),
      (''Json'', ''JsonValue''),
      (''BigInt'', ''number''),
      (''Decimal'', ''number'')]"

fun strip_line_comments_loop :: "string list \<Rightarrow> string list \<Rightarrow> string list" where
  "strip_line_comments_loop [] lines = lines"
| "strip_line_comments_loop (line # rest) lines =
     strip_line_comments_loop rest
       (lines @ [if has_marker line then before_marker line else line])"

definition strip_line_comments :: "string \<Rightarrow> string" where
  "strip_line_comments schema_text =
     join ''\<newline>'' (strip_line_comments_loop (splitlines schema_text) [])"

text \<open>Indexing a list raises \<open>IndexError\<close> out of range.\<close>

definition nth_py :: "'a list \<Rightarrow> nat \<Rightarrow> py_error + 'a" where
  "nth_py xs n = (if n < length xs then Inr (xs ! n) else Inl IndexError)"

text \<open>
  \<open>re.search(r'@@schema\("([^"]+)"\)', l)\<close>, returning group 1 of the leftmost match.
  At a start position the greedy class takes every character up to the next double
  quote; a shorter run is followed by a character that is not a double quote, so
  backtracking finds nothing more.
\<close>

definition schema_match_here :: "string \<Rightarrow> string option" where
  "schema_match_here s =
     (if startswith s (''@@schema('' @ [dquote]) then
        (let r = drop 10 s;
             g = takeWhile (\<lambda>c. c \<noteq> dquote) r;
             t = dropWhile (\<lambda>c. c \<noteq> dquote) r
         in if g \<noteq> [] \<and> startswith t (dquote # '')'') then Some g else None)
      else None)"

fun re_search_schema :: "string \<Rightarrow> string option" where
  "re_search_schema [] = None"
| "re_search_schema (c # cs) =
     (case schema_match_here (c # cs) of
        Some g \<Rightarrow> Some g
      | None \<Rightarrow> re_search_schema cs)"

text \<open>The body of the loop over an enum block's lines (lines 93 to 104).\<close>

fun parse_enum_body :: "string list \<Rightarrow> string list \<Rightarrow> py_error + string list" where
  "parse_enum_body [] vals = Inr vals"
| "parse_enum_body (raw # rest) vals =
     (let l = strip raw in
      if l = [] then parse_enum_body rest vals
      else if startswith l ''@@schema'' then parse_enum_body rest vals
      else if startswith l ''@'' \<or> startswith l ''@@'' then parse_enum_body rest vals
      else (case nth_py (split_ws l) 0 of
              Inl e \<Rightarrow> Inl e
            | Inr token \<Rightarrow>
                if token \<noteq> [] then parse_enum_body rest (vals @ [token])
                else parse_enum_body rest vals))"

text \<open>The raw-type decomposition and the construction of the field (lines 127 to 138).\<close>

definition make_field :: "string \<Rightarrow> string \<Rightarrow> string \<Rightarrow> FieldDef" where
  "make_field field_name type_token l =
     (let opt = endswith type_token ''?'';
          raw_type = (if opt then butlast type_token else type_token);
          lst = endswith raw_type ''[]'';
          base_type = (if lst then take (length raw_type - 2) raw_type else raw_type)
      in \<lparr>FieldDef.name = field_name, type_name = base_type, is_optional = opt,
          is_list = lst, raw_line = l\<rparr>)"

text \<open>The body of the loop over a model block's lines (lines 110 to 139).\<close>

fun parse_model_body ::
  "string list \<Rightarrow> FieldDef list \<Rightarrow> string option \<Rightarrow> py_error + (FieldDef list \<times> string option)"
where
  "parse_model_body [] fs schema_name = Inr (fs, schema_name)"
| "parse_model_body (raw # rest) fs schema_name =
     (let l = strip raw in
      if l = [] then parse_model_body rest fs schema_name
      else if startswith l ''@@schema'' then
        (case re_search_schema l of
           Some g \<Rightarrow> parse_model_body rest fs (Some g)
         | None \<Rightarrow> parse_model_body rest fs schema_name)
      else if startswith l ''@'' \<or> startswith l ''@@'' then parse_model_body rest fs schema_name
      else
        (let parts_f = split_ws l in
         if length parts_f < 2 then parse_model_body rest fs schema_name
         else (case nth_py parts_f 0 of
                 Inl e \<Rightarrow> Inl e
               | Inr field_name \<Rightarrow>
                   (case nth_py parts_f 1 of
                      Inl e \<Rightarrow> Inl e
                    | Inr type_token \<Rightarrow>
                        parse_model_body rest (fs @ [make_field field_name type_token l])
                          schema_name))))"

text \<open>The inner loop that looks for the line with the opening brace (lines 77 and 78).\<close>

function skip_to_brace :: "string list \<Rightarrow> nat \<Rightarrow> nat" where
  "skip_to_brace lines i =
     (if i < length lines \<and> CHR ''{'' \<notin> set (lines ! i) then skip_to_brace lines (i + 1)
      else i)"
  by pat_completeness auto
termination
  by (relation "measure (\<lambda>(lines, i). length lines - i)") auto

declare skip_to_brace.simps [simp del]

text \<open>The inner loop that collects the body lines (lines 84 to 89).\<close>

function collect_body :: "string list \<Rightarrow> nat \<Rightarrow> string list \<Rightarrow> nat \<times> string list" where
  "collect_body lines i body_lines =
     (if i < length lines then
        (let current = lines ! i in
         if strip current = ''}'' then (i, body_lines)
         else collect_body lines (i + 1) (body_lines @ [current]))
      else (i, body_lines))"
  by pat_completeness auto
termination
  by (relation "measure (\<lambda>(lines, i, body_lines). length lines - i)") auto

declare collect_body.simps [simp del]

text \<open>
  One round of the outer \<open>while\<close> loop (lines 65 to 143): the cursor and the two
  dictionaries after the round, or the exception raised in it.
\<close>

definition parse_step ::
  "string list \<Rightarrow> nat \<Rightarrow> enum_dict \<Rightarrow> model_dict \<Rightarrow> py_error + (nat \<times> enum_dict \<times> model_dict)"
where
  "parse_step lines i enums models =
     (case nth_py lines i of
        Inl e \<Rightarrow> Inl e
      | Inr raw \<Rightarrow>
     (let line = strip raw in
      if startswith line ''model '' \<or> startswith line ''enum '' then
        (let parts = split_ws line in
         if length parts < 2 then Inr (i + 1, enums, models)
         else
           (case nth_py parts 0 of
              Inl e \<Rightarrow> Inl e
            | Inr kind \<Rightarrow>
           (case nth_py parts 1 of
              Inl e \<Rightarrow> Inl e
            | Inr nm \<Rightarrow>
           (let i1 = (if CHR ''{'' \<notin> set line then skip_to_brace lines (i + 1) + 1 else i + 1);
                i2 = fst (collect_body lines i1 []);
                body_lines = snd (collect_body lines i1 [])
            in if kind = ''enum'' then
                 (case parse_enum_body body_lines [] of
                    Inl e \<Rightarrow> Inl e
                  | Inr vals \<Rightarrow>
                      Inr (i2 + 1,
                           AList.update nm \<lparr>EnumDef.name = nm, enum_values = vals\<rparr> enums,
                           models))
               else if kind = ''model'' then
                 (case parse_model_body body_lines [] None of
                    Inl e \<Rightarrow> Inl e
                  | Inr (fs, schema_name) \<Rightarrow>
                      Inr (i2 + 1, enums,
                           AList.update nm
                             \<lparr>ModelDef.name = nm, model_fields = fs, schema = schema_name\<rparr>
                             models))
               else Inr (i2 + 1, enums, models)))))
      else Inr (i + 1, enums, models)))"

text \<open>The outer \<open>while\<close> loop (line 64) and \<open>parse_prisma\<close> itself.\<close>

function parse_loop ::
  "string list \<Rightarrow> nat \<Rightarrow> enum_dict \<Rightarrow> model_dict \<Rightarrow> py_error + (enum_dict \<times> model_dict)"
where
  "parse_loop lines i enums models =
     (if i < length lines then
        (case parse_step lines i enums models of
           Inl e \<Rightarrow> Inl e
         | Inr (i', enums', models') \<Rightarrow> parse_loop lines i' enums' models')
      else Inr (enums, models))"
  by pat_completeness auto
termination
proof (relation "measure (\<lambda>(lines, i, enums, models). length lines - i)", goal_cases)
  case 1
  show ?case by simp
next
  case (2 lines i enums models r i' r' enums' models')
  have sk: "j \<le> skip_to_brace lines j" for j
  proof (induction lines j rule: skip_to_brace.induct)
    case (1 lines j)
    then show ?case by (subst skip_to_brace.simps) (auto simp: le_Suc_eq)
  qed
  have cb: "j \<le> fst (collect_body lines j b)" for j b
  proof (induction lines j b rule: collect_body.induct)
    case (1 lines j b)
    then show ?case by (subst collect_body.simps) (auto simp: Let_def le_Suc_eq)
  qed
  have a: "i < Suc (fst (collect_body lines (Suc i) []))"
    using cb [of "Suc i" "[]"] by simp
  have "Suc i \<le> Suc (skip_to_brace lines (Suc i))"
    using sk [of "Suc i"] by simp
  also have "\<dots> \<le> fst (collect_body lines (Suc (skip_to_brace lines (Suc i))) [])"
    by (rule cb)
  finally have b: "i < Suc (fst (collect_body lines (Suc (skip_to_brace lines (Suc i))) []))"
    by simp
  from 2 a b have "i < i'"
    by (auto simp: parse_step_def Let_def split: sum.splits if_splits prod.splits)
  with 2 show ?case by auto
qed

declare parse_loop.simps [simp del]

definition parse_prisma :: "string \<Rightarrow> py_error + (enum_dict \<times> model_dict)" where
  "parse_prisma schema_text =
     (let schema_no_comments = strip_line_comments schema_text;
          lines = splitlines schema_no_comments
      in parse_loop lines 0 [] [])"

section \<open>TS generation helpers\<close>

definition prisma_field_to_ts :: "FieldDef \<Rightarrow> string set \<Rightarrow> string set \<Rightarrow> string" where
  "prisma_field_to_ts field model_names enum_names =
     (let base = type_name field;
          is_model = base \<in> model_names;
          is_enum = base \<in> enum_names;
          ts_base = (case map_of SCALAR_TS_MAP base of
                       Some t \<Rightarrow> t
                     | None \<Rightarrow> if is_enum then base else base)
      in if is_list field then
           (let ts_base_list = ts_base @ ''[]''
            in if is_model then ts_base_list @ '' | null'' else ts_base_list)
         else if \<not> is_model \<and> is_optional field then ts_base @ '' | null''
         else if is_model then ts_base @ '' | null''
         else ts_base)"

definition prisma_field_to_ts_flat :: "FieldDef \<Rightarrow> string set \<Rightarrow> string" where
  "prisma_field_to_ts_flat field enum_names =
     (let base = type_name field;
          is_enum = base \<in> enum_names;
          ts_base = (case map_of SCALAR_TS_MAP base of
                       Some t \<Rightarrow> t
                     | None \<Rightarrow> if is_enum then base else ''any'')
      in if is_list field then
           (let ts_base_list = ts_base @ ''[]''
            in if is_optional field then ts_base_list @ '' | null'' else ts_base_list)
         else if is_optional field then ts_base @ '' | null''
         else ts_base)"

text \<open>
  The emitters build a list \<open>lines\<close> with \<open>lines.append\<close> and join it with a newline
  at the end. Each loop takes the list built so far and returns it extended.
\<close>

definition values_union :: "EnumDef \<Rightarrow> string" where
  "values_union enum = join '' | '' (map (\<lambda>v. [dquote] @ v @ [dquote]) (enum_values enum))"

text \<open>The loop over \<open>enums.values()\<close> (lines 234 to 239, and again lines 295 to 300).\<close>

fun enum_types_loop :: "EnumDef list \<Rightarrow> string list \<Rightarrow> string list" where
  "enum_types_loop [] lines = lines"
| "enum_types_loop (enum # rest) lines =
     (if enum_values enum = [] then enum_types_loop rest lines
      else enum_types_loop rest
             (lines @ [''export type '' @ EnumDef.name enum @ '' = '' @ values_union enum @ '';'',
                       []]))"

text \<open>The loop over \<open>models.keys()\<close> (lines 246 and 247).\<close>

fun forward_loop :: "string list \<Rightarrow> string list \<Rightarrow> string list" where
  "forward_loop [] lines = lines"
| "forward_loop (model_name # rest) lines =
     forward_loop rest (lines @ [''export interface '' @ model_name @ '' {}''])"

text \<open>The loop over the fields of the full interface (lines 258 to 260, and 346 to 348).\<close>

fun nested_fields_loop ::
  "FieldDef list \<Rightarrow> string set \<Rightarrow> string set \<Rightarrow> string list \<Rightarrow> string list"
where
  "nested_fields_loop [] model_names enum_names lines = lines"
| "nested_fields_loop (field # rest) model_names enum_names lines =
     (let ts_type = prisma_field_to_ts field model_names enum_names
      in nested_fields_loop rest model_names enum_names
           (lines @ [''  '' @ FieldDef.name field @ '': '' @ ts_type @ '';'']))"

text \<open>The loop over the fields of the flat interface (lines 265 to 270, and 353 to 357).\<close>

fun flat_fields_loop ::
  "FieldDef list \<Rightarrow> string set \<Rightarrow> string set \<Rightarrow> string list \<Rightarrow> string list"
where
  "flat_fields_loop [] model_names enum_names lines = lines"
| "flat_fields_loop (field # rest) model_names enum_names lines =
     (if type_name field \<in> model_names then flat_fields_loop rest model_names enum_names lines
      else
        (let ts_type_flat = prisma_field_to_ts_flat field enum_names
         in flat_fields_loop rest model_names enum_names
              (lines @ [''  '' @ FieldDef.name field @ '': '' @ ts_type_flat @ '';''])))"

text \<open>
  The loop over the models (lines 256 to 272). The split-file emitter repeats the same
  statements for the models of one partition (lines 344 to 359).
\<close>

fun models_loop ::
  "ModelDef list \<Rightarrow> string set \<Rightarrow> string set \<Rightarrow> bool \<Rightarrow> string list \<Rightarrow> string list"
where
  "models_loop [] model_names enum_names generate_flat lines = lines"
| "models_loop (model # rest) model_names enum_names generate_flat lines =
     (let lines1 = lines @ [''export interface '' @ ModelDef.name model @ '' '' @ ''{''];
          lines2 = nested_fields_loop (model_fields model) model_names enum_names lines1;
          lines3 = lines2 @ [''}'', []];
          lines4 =
            (if generate_flat then
               (let lines5 = lines3 @ [''export interface '' @ ModelDef.name model @ ''Flat '' @ ''{''];
                    lines6 = flat_fields_loop (model_fields model) model_names enum_names lines5
                in lines6 @ [''}'', []])
             else lines3)
      in models_loop rest model_names enum_names generate_flat lines4)"

definition generate_single_file_lines :: "enum_dict \<Rightarrow> model_dict \<Rightarrow> bool \<Rightarrow> string list" where
  "generate_single_file_lines enums models generate_flat =
     (let model_names = set (map fst models);
          enum_names = set (map fst enums);
          lines = [''// Auto-generated from Prisma schema.'',
                   ''// Generated by Prisma TypeTags (single file).'',
                   [],
                   ''export type DateTimeString = string;'',
                   ''export type JsonValue = any;'',
                   []];
          lines = (if enums \<noteq> [] then
                     enum_types_loop (map snd enums)
                       (lines @ [''// ========================='',
                                 ''// ENUM TYPES'',
                                 ''// ========================='',
                                 []])
                   else lines);
          lines = lines @ [''// ========================='',
                           ''// FORWARD DECLARATIONS'',
                           ''// ========================='',
                           []];
          lines = forward_loop (map fst models) lines;
          lines = lines @ [[]];
          lines = lines @ [''// ========================='',
                           ''// MODELS'',
                           ''// ========================='',
                           []]
      in models_loop (map snd models) model_names enum_names generate_flat lines)"

definition generate_single_file :: "enum_dict \<Rightarrow> model_dict \<Rightarrow> bool \<Rightarrow> string" where
  "generate_single_file enums models generate_flat =
     join ''\<newline>'' (generate_single_file_lines enums models generate_flat)"














definition prisma_to_ts :: "string \<Rightarrow> py_error + string" where
  "prisma_to_ts schema_text =
     (case parse_prisma schema_text of
        Inl e \<Rightarrow> Inl e
      | Inr (enums, models) \<Rightarrow> Inr (generate_single_file enums models False))"

section \<open>Notions of the specification\<close>

text \<open>The source scalars that the table sends to one target type name, in table order.\<close>

definition scalars_mapped_to :: "string \<Rightarrow> string list" where
  "scalars_mapped_to t = map fst (filter (\<lambda>kv. snd kv = t) SCALAR_TS_MAP)"

text \<open>The lines that one round of the loop over the models appends.\<close>

definition model_block :: "ModelDef \<Rightarrow> string set \<Rightarrow> string set \<Rightarrow> bool \<Rightarrow> string list" where
  "model_block m mn en flat =
     [''export interface '' @ ModelDef.name m @ '' {''] @
     map (\<lambda>f. ''  '' @ FieldDef.name f @ '': '' @ prisma_field_to_ts f mn en @ '';'') (model_fields m) @
     [''}'', []] @
     (if flat then
        [''export interface '' @ ModelDef.name m @ ''Flat {''] @
        map (\<lambda>f. ''  '' @ FieldDef.name f @ '': '' @ prisma_field_to_ts_flat f en @ '';'')
          (filter (\<lambda>f. type_name f \<notin> mn) (model_fields m)) @
        [''}'', []]
      else [])"

text \<open>What the loop of \<open>strip_line_comments\<close> appends for one line (lines 51 to 53).\<close>

definition cut_comment :: "string \<Rightarrow> string" where
  "cut_comment line = (if has_marker line then before_marker line else line)"

text \<open>
  A token of \<open>str.split()\<close>; a text with the list marker \<open>[]\<close> in it; a base type name
  with no modifier left in it; a field as the model loop builds it from a body line; a
  dictionary entry as the outer loop stores it.
\<close>

definition is_token :: "string \<Rightarrow> bool" where
  "is_token t \<longleftrightarrow> t \<noteq> [] \<and> (\<forall>c\<in>set t. \<not> isspace c)"

fun has_brackets :: "string \<Rightarrow> bool" where
  "has_brackets (c # d # r) = ((c = CHR ''['' \<and> d = CHR '']'') \<or> has_brackets (d # r))"
| "has_brackets _ = False"

definition modifier_free :: "string \<Rightarrow> bool" where
  "modifier_free b \<longleftrightarrow> CHR ''?'' \<notin> set b \<and> \<not> has_brackets b"

definition field_of_line :: "FieldDef \<Rightarrow> bool" where
  "field_of_line f \<longleftrightarrow>
     (\<exists>field_name type_token rest.
        split_ws (raw_line f) = field_name # type_token # rest \<and>
        f = make_field field_name type_token (raw_line f))"

definition parsed_model :: "string \<times> ModelDef \<Rightarrow> bool" where
  "parsed_model km \<longleftrightarrow>
     ModelDef.name (snd km) = fst km \<and> is_token (fst km) \<and>
     (\<forall>f\<in>set (model_fields (snd km)). field_of_line f)"

definition parsed_enum :: "string \<times> EnumDef \<Rightarrow> bool" where
  "parsed_enum ke \<longleftrightarrow>
     EnumDef.name (snd ke) = fst ke \<and> is_token (fst ke) \<and>
     (\<forall>v\<in>set (enum_values (snd ke)). is_token v)"








section \<open>The scalar table and the type mapper\<close>

lemma scalar_lookup_simps:
  "map_of SCALAR_TS_MAP ''String'' = Some ''string''"
  "map_of SCALAR_TS_MAP ''Int'' = Some ''number''"
  "map_of SCALAR_TS_MAP ''Float'' = Some ''number''"
  "map_of SCALAR_TS_MAP ''Boolean'' = Some ''boolean''"
  "map_of SCALAR_TS_MAP ''DateTime'' = Some ''DateTimeString''"
  "map_of SCALAR_TS_MAP ''Json'' = Some ''JsonValue''"
  "map_of SCALAR_TS_MAP ''BigInt'' = Some ''number''"
  "map_of SCALAR_TS_MAP ''Decimal'' = Some ''number''"
  by (simp_all add: SCALAR_TS_MAP_def)

section \<open>The emitter loops in closed form\<close>

lemma join_append:
  "join sep (xs @ ys) =
     (if xs = [] then join sep ys else if ys = [] then join sep xs
      else join sep xs @ sep @ join sep ys)"
proof (induction sep xs rule: join.induct)
  case (1 sep)
  show ?case by simp
next
  case (2 sep x)
  show ?case by (cases ys) simp_all
next
  case (3 sep x y zs)
  then show ?case by simp
qed

lemma sublist_join:
  assumes "sublist xs ys" and "xs \<noteq> []"
  shows "sublist (join sep xs) (join sep ys)"
proof -
  from assms obtain ps ss where ys: "ys = ps @ xs @ ss" by (auto simp: sublist_def)
  have "\<exists>a b. join sep (ps @ xs @ ss) = a @ join sep xs @ b"
  proof (cases "ps = []")
    case True
    show ?thesis
    proof (cases "ss = []")
      case True
      with \<open>ps = []\<close> have "join sep (ps @ xs @ ss) = [] @ join sep xs @ []" by simp
      then show ?thesis by blast
    next
      case False
      with \<open>ps = []\<close> assms(2) have "join sep (ps @ xs @ ss) = [] @ join sep xs @ (sep @ join sep ss)"
        by (simp add: join_append)
      then show ?thesis by blast
    qed
  next
    case False
    show ?thesis
    proof (cases "ss = []")
      case True
      with False assms(2) have "join sep (ps @ xs @ ss) = (join sep ps @ sep) @ join sep xs @ []"
        by (simp add: join_append)
      then show ?thesis by blast
    next
      case ss: False
      with False assms(2)
      have "join sep (ps @ xs @ ss) = (join sep ps @ sep) @ join sep xs @ (sep @ join sep ss)"
        by (simp add: join_append)
      then show ?thesis by blast
    qed
  qed
  with ys show ?thesis by (auto simp: sublist_def)
qed

lemma nested_fields_loop_eq:
  "nested_fields_loop fs mn en ls =
     ls @ map (\<lambda>f. ''  '' @ FieldDef.name f @ '': '' @ prisma_field_to_ts f mn en @ '';'') fs"
  by (induction fs arbitrary: ls) simp_all

lemma flat_fields_loop_eq:
  "flat_fields_loop fs mn en ls =
     ls @ map (\<lambda>f. ''  '' @ FieldDef.name f @ '': '' @ prisma_field_to_ts_flat f en @ '';'')
            (filter (\<lambda>f. type_name f \<notin> mn) fs)"
  by (induction fs arbitrary: ls) simp_all

lemma models_loop_eq:
  "models_loop ms mn en flat ls = ls @ concat (map (\<lambda>m. model_block m mn en flat) ms)"
  by (induction ms arbitrary: ls)
     (simp_all add: Let_def nested_fields_loop_eq flat_fields_loop_eq model_block_def)

lemma sublist_concat_member:
  assumes "x \<in> set xs" and "sublist b (f x)"
  shows "sublist b (concat (map f xs))"
proof -
  from assms(1) obtain us vs where "xs = us @ x # vs" by (auto simp: in_set_conv_decomp)
  then have "concat (map f xs) = concat (map f us) @ f x @ concat (map f vs)" by simp
  moreover from assms(2) obtain p s where "f x = p @ b @ s" by (auto simp: sublist_def)
  ultimately have "concat (map f xs) = (concat (map f us) @ p) @ b @ (s @ concat (map f vs))"
    by simp
  then show ?thesis unfolding sublist_def by blast
qed

lemma flat_interface_block:
  assumes "m \<in> set (map snd models)"
  shows "sublist
           ([''export interface '' @ ModelDef.name m @ ''Flat {''] @
            map (\<lambda>f. ''  '' @ FieldDef.name f @ '': '' @
                      prisma_field_to_ts_flat f (set (map fst enums)) @ '';'')
              (filter (\<lambda>f. type_name f \<notin> set (map fst models)) (model_fields m)) @
            [''}''])
           (generate_single_file_lines enums models True)"
proof -
  let ?mn = "set (map fst models)" and ?en = "set (map fst enums)"
  let ?b = "[''export interface '' @ ModelDef.name m @ ''Flat {''] @
            map (\<lambda>f. ''  '' @ FieldDef.name f @ '': '' @ prisma_field_to_ts_flat f ?en @ '';'')
              (filter (\<lambda>f. type_name f \<notin> ?mn) (model_fields m)) @ [''}'']"
  have "model_block m ?mn ?en True =
          ([''export interface '' @ ModelDef.name m @ '' {''] @
           map (\<lambda>f. ''  '' @ FieldDef.name f @ '': '' @ prisma_field_to_ts f ?mn ?en @ '';'')
             (model_fields m) @ [''}'', []]) @ ?b @ [[]]"
    by (simp add: model_block_def)
  then have "sublist ?b (model_block m ?mn ?en True)"
    unfolding sublist_def by blast
  then have "sublist ?b (concat (map (\<lambda>m. model_block m ?mn ?en True) (map snd models)))"
    using assms by (rule sublist_concat_member [rotated])
  then obtain p s where
    ps: "concat (map (\<lambda>m. model_block m ?mn ?en True) (map snd models)) = p @ ?b @ s"
    unfolding sublist_def by blast
  obtain pre where "generate_single_file_lines enums models True =
       pre @ concat (map (\<lambda>m. model_block m ?mn ?en True) (map snd models))"
    unfolding generate_single_file_lines_def Let_def
    by (subst (asm) models_loop_eq) blast
  with ps have "generate_single_file_lines enums models True = (pre @ p) @ ?b @ s"
    by simp
  then show ?thesis
    unfolding sublist_def by blast
qed

section \<open>Lines and comments\<close>

lemma strip_line_comments_loop_eq:
  "strip_line_comments_loop ls acc = acc @ map cut_comment ls"
  by (induction ls arbitrary: acc) (simp_all add: cut_comment_def)

lemma before_marker_no_marker: "\<not> has_marker l \<Longrightarrow> before_marker l = l"
  by (induction l rule: before_marker.induct) auto

lemma before_marker_split:
  "has_marker l \<Longrightarrow> \<exists>rest. l = before_marker l @ ''//'' @ rest"
  by (induction l rule: before_marker.induct) auto

lemma before_marker_first:
  "has_marker l \<Longrightarrow> \<not> has_marker (before_marker l @ ''/'')"
proof (induction l rule: before_marker.induct)
  case (1 c d r)
  show ?case
  proof (cases "c = CHR ''/'' \<and> d = CHR ''/''")
    case True
    then show ?thesis by simp
  next
    case False
    with 1 have ih: "\<not> has_marker (before_marker (d # r) @ ''/'')" by auto
    from False 1(2) have hm: "has_marker (d # r)" by auto
    then obtain e r' where r: "r = e # r'" by (cases r) auto
    show ?thesis
    proof (cases "d = CHR ''/'' \<and> e = CHR ''/''")
      case True
      with False r show ?thesis by auto
    next
      case False
      with r have "before_marker (d # r) = d # before_marker (e # r')" by simp
      with ih \<open>\<not> (c = CHR ''/'' \<and> d = CHR ''/'')\<close> show ?thesis by simp
    qed
  qed
qed simp_all

lemma set_before_marker: "set (before_marker l) \<subseteq> set l"
  by (induction l rule: before_marker.induct) auto

lemma set_cut_comment: "set (cut_comment l) \<subseteq> set l"
  using set_before_marker by (simp add: cut_comment_def)

lemma splitlines_no_linebreak:
  "l \<in> set (splitlines s) \<Longrightarrow> c \<in> set l \<Longrightarrow> \<not> is_linebreak c"
proof (induction s arbitrary: l rule: splitlines.induct)
  case 1
  then show ?case by simp
next
  case (2 d cs)
  show ?case
  proof (cases "d = CHR 0x0D")
    case True
    show ?thesis
    proof (cases cs)
      case Nil
      with True 2(5,6) show ?thesis by simp
    next
      case (Cons e ds)
      show ?thesis
      proof (cases "e = CHR 0x0A")
        case e: True
        with True Cons 2(5) have "l = [] \<or> l \<in> set (splitlines ds)" by simp
        with 2(1) [OF True Cons e] 2(6) show ?thesis by auto
      next
        case e: False
        with True Cons 2(5) have "l = [] \<or> l \<in> set (splitlines cs)" by simp
        with 2(2) [OF True Cons e] 2(6) show ?thesis by auto
      qed
    qed
  next
    case False
    show ?thesis
    proof (cases "is_linebreak d")
      case True
      with False 2(5) have "l = [] \<or> l \<in> set (splitlines cs)" by simp
      with 2(3) [OF False True] 2(6) show ?thesis by auto
    next
      case nb: False
      show ?thesis
      proof (cases "splitlines cs")
        case Nil
        with False nb 2(5) have "l = [d]" by simp
        with nb 2(6) show ?thesis by simp
      next
        case (Cons l' ls)
        with False nb 2(5) have "l = d # l' \<or> l \<in> set ls" by simp
        then show ?thesis
        proof
          assume l: "l = d # l'"
          have "l' \<in> set (splitlines cs)" using Cons by simp
          from 2(4) [OF False nb this] l nb 2(6) show ?thesis by auto
        next
          assume "l \<in> set ls"
          then have "l \<in> set (splitlines cs)" using Cons by simp
          from 2(4) [OF False nb this 2(6)] show ?thesis .
        qed
      qed
    qed
  qed
qed

lemma not_linebreak_simps:
  "\<not> is_linebreak c \<Longrightarrow> c \<noteq> CHR 0x0D"
  "is_linebreak (CHR 0x0A)"
  by (auto simp: is_linebreak_def)

lemma splitlines_plain:
  "\<forall>c\<in>set x. \<not> is_linebreak c \<Longrightarrow> splitlines x = (if x = [] then [] else [x])"
proof (induction x)
  case Nil
  show ?case by simp
next
  case (Cons c x)
  then have "\<not> is_linebreak c" and "c \<noteq> CHR 0x0D"
    by (simp_all add: not_linebreak_simps)
  with Cons show ?case by simp
qed

lemma splitlines_line_newline:
  "\<forall>c\<in>set x. \<not> is_linebreak c \<Longrightarrow> splitlines (x @ CHR 0x0A # r) = x # splitlines r"
proof (induction x)
  case Nil
  show ?case by (simp add: not_linebreak_simps)
next
  case (Cons c x)
  then have "\<not> is_linebreak c" and "c \<noteq> CHR 0x0D"
    by (simp_all add: not_linebreak_simps)
  with Cons show ?case by simp
qed

lemma splitlines_join:
  "\<forall>l\<in>set ls. \<forall>c\<in>set l. \<not> is_linebreak c \<Longrightarrow>
   splitlines (join ''\<newline>'' ls) = (if ls \<noteq> [] \<and> last ls = [] then butlast ls else ls)"
proof (induction "''\<newline>''" ls rule: join.induct)
  case 1
  show ?case by simp
next
  case (2 x)
  then show ?case by (simp add: splitlines_plain)
next
  case (3 x y ys)
  then have "splitlines (join ''\<newline>'' (y # ys)) =
      (if last (y # ys) = [] then butlast (y # ys) else y # ys)" by simp
  moreover from 3 have "splitlines (join ''\<newline>'' (x # y # ys)) = x # splitlines (join ''\<newline>'' (y # ys))"
    using splitlines_line_newline [of x "join ''\<newline>'' (y # ys)"] by simp
  ultimately show ?case by simp
qed

section \<open>The parser raises nothing\<close>

lemma split_ws_nonempty: "\<exists>c\<in>set s. \<not> isspace c \<Longrightarrow> split_ws s \<noteq> []"
  by (induction s rule: split_ws.induct) auto

lemma strip_has_nonspace:
  assumes "strip s \<noteq> []"
  shows "\<exists>c\<in>set (strip s). \<not> isspace c"
proof -
  let ?t = "dropWhile isspace (rev (dropWhile isspace s))"
  from assms have ne: "?t \<noteq> []" by (simp add: strip_def)
  then have "\<not> isspace (hd ?t)" by (rule hd_dropWhile)
  moreover from ne have "hd ?t \<in> set ?t" by simp
  ultimately show ?thesis by (auto simp: strip_def)
qed

lemma nth_py_split_strip:
  "strip raw \<noteq> [] \<Longrightarrow> \<exists>token. nth_py (split_ws (strip raw)) 0 = Inr token"
  using split_ws_nonempty [OF strip_has_nonspace, of raw] by (simp add: nth_py_def)

lemma parse_enum_body_total: "\<exists>vals'. parse_enum_body body vals = Inr vals'"
proof (induction body arbitrary: vals)
  case Nil
  show ?case by simp
next
  case (Cons raw rest)
  show ?case
  proof (cases "strip raw = []")
    case True
    with Cons show ?thesis by simp
  next
    case False
    then obtain token where "nth_py (split_ws (strip raw)) 0 = Inr token"
      using nth_py_split_strip by blast
    with Cons False show ?thesis by (simp add: Let_def)
  qed
qed

lemma parse_model_body_total: "\<exists>r. parse_model_body body fs sn = Inr r"
proof (induction body arbitrary: fs sn)
  case Nil
  show ?case by simp
next
  case (Cons raw rest)
  show ?case
  proof (cases "length (split_ws (strip raw)) < 2")
    case True
    with Cons show ?thesis by (simp add: Let_def split: option.splits)
  next
    case False
    then have "nth_py (split_ws (strip raw)) 0 = Inr (split_ws (strip raw) ! 0)"
      and "nth_py (split_ws (strip raw)) 1 = Inr (split_ws (strip raw) ! 1)"
      by (auto simp: nth_py_def)
    with Cons False show ?thesis by (simp add: Let_def split: option.splits)
  qed
qed

lemma parse_step_total:
  assumes "i < length lines"
  shows "\<exists>r. parse_step lines i enums models = Inr r"
proof -
  from assms have l: "nth_py lines i = Inr (lines ! i)" by (simp add: nth_py_def)
  let ?parts = "split_ws (strip (lines ! i))"
  show ?thesis
  proof (cases "length ?parts < 2")
    case True
    with l show ?thesis by (simp add: parse_step_def Let_def)
  next
    case False
    then have p: "nth_py ?parts 0 = Inr (?parts ! 0)" "nth_py ?parts 1 = Inr (?parts ! 1)"
      by (auto simp: nth_py_def)
    obtain vals where e: "parse_enum_body
        (snd (collect_body lines
               (if CHR ''{'' \<notin> set (strip (lines ! i)) then skip_to_brace lines (i + 1) + 1
                else i + 1) [])) [] = Inr vals"
      using parse_enum_body_total by blast
    obtain r where m: "parse_model_body
        (snd (collect_body lines
               (if CHR ''{'' \<notin> set (strip (lines ! i)) then skip_to_brace lines (i + 1) + 1
                else i + 1) [])) [] None = Inr r"
      using parse_model_body_total by blast
    from l p e m False show ?thesis
      by (cases r) (simp add: parse_step_def Let_def)
  qed
qed

lemma parse_loop_total: "\<exists>enums' models'. parse_loop lines i enums models = Inr (enums', models')"
proof (induction lines i enums models rule: parse_loop.induct)
  case (1 lines i enums models)
  show ?case
  proof (cases "i < length lines")
    case True
    then obtain i' enums' models' where
      s: "parse_step lines i enums models = Inr (i', enums', models')"
      using parse_step_total [of i lines enums models] by (metis prod_cases3)
    from 1 [OF True s] True s show ?thesis
      by (subst parse_loop.simps) simp
  next
    case False
    then show ?thesis by (subst parse_loop.simps) simp
  qed
qed

lemma parse_step_other_line:
  assumes "i < length lines"
    and "\<not> startswith (strip (lines ! i)) ''model ''"
    and "\<not> startswith (strip (lines ! i)) ''enum ''"
  shows "parse_step lines i enums models = Inr (i + 1, enums, models)"
  using assms by (simp add: parse_step_def nth_py_def Let_def)

lemma parse_model_body_short_line:
  assumes "length (split_ws (strip raw)) < 2"
  shows "parse_model_body (raw # rest) fs sn =
           parse_model_body rest fs
             (if strip raw \<noteq> [] \<and> startswith (strip raw) ''@@schema'' then
                (case re_search_schema (strip raw) of Some g \<Rightarrow> Some g | None \<Rightarrow> sn)
              else sn)"
  using assms by (simp add: Let_def split: option.splits)

lemma parse_enum_body_other_line:
  assumes "strip raw = [] \<or> startswith (strip raw) ''@''"
  shows "parse_enum_body (raw # rest) vals = parse_enum_body rest vals"
  using assms by (auto simp: Let_def)

lemma skip_to_brace_none:
  "\<forall>j. k \<le> j \<and> j < length lines \<longrightarrow> CHR ''{'' \<notin> set (lines ! j) \<Longrightarrow>
   skip_to_brace lines k = max k (length lines)"
proof (induction lines k rule: skip_to_brace.induct)
  case (1 lines k)
  show ?case
  proof (cases "k < length lines")
    case True
    with 1(2) have nb: "CHR ''{'' \<notin> set (lines ! k)" by simp
    from 1(2) have "\<forall>j. k + 1 \<le> j \<and> j < length lines \<longrightarrow> CHR ''{'' \<notin> set (lines ! j)"
      by simp
    with 1(1) True nb have "skip_to_brace lines (k + 1) = max (k + 1) (length lines)" by simp
    moreover from True nb have "skip_to_brace lines k = skip_to_brace lines (k + 1)"
      by (subst skip_to_brace.simps) simp
    ultimately show ?thesis using True by simp
  next
    case False
    then have "skip_to_brace lines k = k" by (subst skip_to_brace.simps) simp
    with False show ?thesis by simp
  qed
qed

lemma collect_body_end:
  "length lines \<le> k \<Longrightarrow> collect_body lines k body = (k, body)"
  by (subst collect_body.simps) simp

lemma strip_last_nonspace:
  assumes "strip s \<noteq> []"
  shows "\<not> isspace (last (strip s))"
proof -
  let ?t = "dropWhile isspace (rev (dropWhile isspace s))"
  from assms have ne: "?t \<noteq> []" by (simp add: strip_def)
  then have "\<not> isspace (hd ?t)" by (rule hd_dropWhile)
  moreover from ne have "last (strip s) = hd ?t" by (simp add: strip_def last_rev)
  ultimately show ?thesis by simp
qed

lemma split_ws_after_keyword:
  assumes "strip raw = kw @ CHR '' '' # r"
  shows "split_ws r \<noteq> []"
proof -
  from assms have ne: "strip raw \<noteq> []" by simp
  have sp: "isspace (CHR '' '')" by (simp add: isspace_def)
  have "r \<noteq> []"
  proof
    assume "r = []"
    with assms have "last (strip raw) = CHR '' ''" by simp
    with strip_last_nonspace [OF ne] sp show False by simp
  qed
  with assms have "last (strip raw) = last r" by simp
  with strip_last_nonspace [OF ne] have "\<not> isspace (last r)" by simp
  with \<open>r \<noteq> []\<close> have "\<exists>c\<in>set r. \<not> isspace c" using last_in_set by blast
  then show ?thesis by (rule split_ws_nonempty)
qed

lemma split_ws_model: "split_ws (''model '' @ r) = ''model'' # split_ws r"
  by (simp add: isspace_def)

lemma split_ws_enum: "split_ws (''enum '' @ r) = ''enum'' # split_ws r"
  by (simp add: isspace_def)

lemma startswithD: "startswith s p \<Longrightarrow> \<exists>r. s = p @ r"
  by (metis append_take_drop_id startswith_def)

lemma model_header_tokens:
  assumes "startswith (strip raw) ''model ''"
  shows "\<exists>nm rest. split_ws (strip raw) = ''model'' # nm # rest"
proof -
  from startswithD [OF assms] obtain r where e: "strip raw = ''model '' @ r" ..
  then have "strip raw = ''model'' @ CHR '' '' # r" by simp
  then have "split_ws r \<noteq> []" by (rule split_ws_after_keyword)
  then obtain nm rest where "split_ws r = nm # rest"
    by (cases "split_ws r") auto
  with e split_ws_model [of r] show ?thesis by simp
qed

lemma enum_header_tokens:
  assumes "startswith (strip raw) ''enum ''"
  shows "\<exists>nm rest. split_ws (strip raw) = ''enum'' # nm # rest"
proof -
  from startswithD [OF assms] obtain r where e: "strip raw = ''enum '' @ r" ..
  then have "strip raw = ''enum'' @ CHR '' '' # r" by simp
  then have "split_ws r \<noteq> []" by (rule split_ws_after_keyword)
  then obtain nm rest where "split_ws r = nm # rest"
    by (cases "split_ws r") auto
  with e split_ws_enum [of r] show ?thesis by simp
qed

lemma parse_step_no_brace:
  assumes i: "i < length lines"
    and nb: "\<forall>j. i \<le> j \<and> j < length lines \<longrightarrow> CHR ''{'' \<notin> set (lines ! j)"
  shows "(startswith (strip (lines ! i)) ''model '' \<longrightarrow>
            (\<exists>nm. parse_step lines i enums models =
               Inr (length lines + 2, enums,
                    AList.update nm
                      \<lparr>ModelDef.name = nm, model_fields = [], schema = None\<rparr> models))) \<and>
         (startswith (strip (lines ! i)) ''enum '' \<longrightarrow>
            (\<exists>nm. parse_step lines i enums models =
               Inr (length lines + 2,
                    AList.update nm \<lparr>EnumDef.name = nm, enum_values = []\<rparr> enums, models)))"
proof -
  let ?line = "strip (lines ! i)"
  from i have l: "nth_py lines i = Inr (lines ! i)" by (simp add: nth_py_def)
  have "set ?line \<subseteq> set (lines ! i)"
  proof
    fix c
    assume "c \<in> set ?line"
    then have "c \<in> set (dropWhile isspace (rev (dropWhile isspace (lines ! i))))"
      by (simp add: strip_def)
    then have "c \<in> set (rev (dropWhile isspace (lines ! i)))" by (rule set_dropWhileD)
    then have "c \<in> set (dropWhile isspace (lines ! i))" by simp
    then show "c \<in> set (lines ! i)" by (rule set_dropWhileD)
  qed
  with nb i have b: "CHR ''{'' \<notin> set ?line" by auto
  from nb have "\<forall>j. i + 1 \<le> j \<and> j < length lines \<longrightarrow> CHR ''{'' \<notin> set (lines ! j)" by simp
  from skip_to_brace_none [OF this] i have s: "skip_to_brace lines (Suc i) = length lines"
    by simp
  have c: "collect_body lines (Suc (length lines)) [] = (Suc (length lines), [])"
    by (rule collect_body_end) simp
  have me: "''model'' \<noteq> ''enum''" by simp
  show ?thesis
  proof (intro conjI impI)
    assume h: "startswith ?line ''model ''"
    from model_header_tokens [OF h] obtain nm rest where
      p: "split_ws ?line = ''model'' # nm # rest" by blast
    have "parse_step lines i enums models =
            Inr (length lines + 2, enums,
                 AList.update nm \<lparr>ModelDef.name = nm, model_fields = [], schema = None\<rparr> models)"
      by (simp add: parse_step_def l h p b s c me i nth_py_def Let_def)
    then show "\<exists>nm. parse_step lines i enums models =
            Inr (length lines + 2, enums,
                 AList.update nm \<lparr>ModelDef.name = nm, model_fields = [], schema = None\<rparr> models)"
      by blast
  next
    assume h: "startswith ?line ''enum ''"
    from enum_header_tokens [OF h] obtain nm rest where
      p: "split_ws ?line = ''enum'' # nm # rest" by blast
    have "parse_step lines i enums models =
            Inr (length lines + 2,
                 AList.update nm \<lparr>EnumDef.name = nm, enum_values = []\<rparr> enums, models)"
      by (simp add: parse_step_def l h p b s c i nth_py_def Let_def)
    then show "\<exists>nm. parse_step lines i enums models =
            Inr (length lines + 2,
                 AList.update nm \<lparr>EnumDef.name = nm, enum_values = []\<rparr> enums, models)"
      by blast
  qed
qed

section \<open>What the parser stores\<close>

lemma split_ws_tokens: "t \<in> set (split_ws s) \<Longrightarrow> is_token t"
proof (induction s rule: split_ws.induct)
  case 1
  then show ?case by simp
next
  case (2 c cs)
  show ?case
  proof (cases "isspace c")
    case True
    with 2 show ?thesis by simp
  next
    case False
    with 2(3) have "t = c # takeWhile (\<lambda>x. \<not> isspace x) cs \<or>
        t \<in> set (split_ws (dropWhile (\<lambda>x. \<not> isspace x) cs))" by simp
    then show ?thesis
    proof
      assume "t = c # takeWhile (\<lambda>x. \<not> isspace x) cs"
      with False show ?thesis by (auto simp: is_token_def dest: set_takeWhileD)
    next
      assume "t \<in> set (split_ws (dropWhile (\<lambda>x. \<not> isspace x) cs))"
      with 2(2) [OF False] show ?thesis .
    qed
  qed
qed

lemma nth_py_in_set: "nth_py xs n = Inr x \<Longrightarrow> x \<in> set xs"
  by (auto simp: nth_py_def split: if_splits)

lemma parse_enum_body_tokens:
  "parse_enum_body body vals = Inr vals' \<Longrightarrow> \<forall>v\<in>set vals. is_token v \<Longrightarrow>
   \<forall>v\<in>set vals'. is_token v"
proof (induction body arbitrary: vals)
  case Nil
  then show ?case by simp
next
  case (Cons raw rest)
  have "\<exists>vals2. parse_enum_body rest vals2 = Inr vals' \<and> (\<forall>v\<in>set vals2. is_token v)"
  proof (cases "nth_py (split_ws (strip raw)) 0")
    case (Inl e)
    with Cons.prems(1) have "parse_enum_body rest vals = Inr vals'"
      by (simp add: Let_def split: if_splits)
    with Cons.prems(2) show ?thesis by blast
  next
    case (Inr token)
    then have t: "is_token token" by (rule split_ws_tokens [OF nth_py_in_set])
    from Inr Cons.prems(1) have "parse_enum_body rest vals = Inr vals' \<or>
        parse_enum_body rest (vals @ [token]) = Inr vals'"
      by (simp add: Let_def split: if_splits)
    then show ?thesis
    proof
      assume "parse_enum_body rest vals = Inr vals'"
      with Cons.prems(2) show ?thesis by blast
    next
      assume r: "parse_enum_body rest (vals @ [token]) = Inr vals'"
      from t Cons.prems(2) have "\<forall>v\<in>set (vals @ [token]). is_token v" by simp
      with r show ?thesis by blast
    qed
  qed
  then obtain vals2 where "parse_enum_body rest vals2 = Inr vals'"
    and "\<forall>v\<in>set vals2. is_token v" by blast
  then show ?case by (rule Cons.IH)
qed

lemma nth_py_two:
  assumes "nth_py xs 0 = Inr a" and "nth_py xs 1 = Inr b"
  shows "\<exists>rest. xs = a # b # rest"
proof -
  from assms have "1 < length xs" and "xs ! 0 = a" and "xs ! 1 = b"
    by (auto simp: nth_py_def split: if_splits)
  then show ?thesis
    by (cases xs; cases "tl xs") auto
qed

lemma parse_model_body_fields:
  "parse_model_body body fs sn = Inr (fs', sn') \<Longrightarrow> \<forall>f\<in>set fs. field_of_line f \<Longrightarrow>
   \<forall>f\<in>set fs'. field_of_line f"
proof (induction body arbitrary: fs sn)
  case Nil
  then show ?case by simp
next
  case (Cons raw rest)
  let ?l = "strip raw"
  show ?case
  proof (cases "?l = [] \<or> startswith ?l ''@@schema'' \<or> startswith ?l ''@'' \<or>
                startswith ?l ''@@'' \<or> length (split_ws ?l) < 2")
    case True
    with Cons show ?thesis by (auto simp: Let_def split: if_splits option.splits)
  next
    case False
    from False Cons.prems(1) obtain fn tok where
      a: "nth_py (split_ws ?l) 0 = Inr fn" and b: "nth_py (split_ws ?l) 1 = Inr tok" and
      r: "parse_model_body rest (fs @ [make_field fn tok ?l]) sn = Inr (fs', sn')"
      by (auto simp: Let_def split: sum.splits)
    from nth_py_two [OF a b] obtain rs where "split_ws ?l = fn # tok # rs" ..
    then have "field_of_line (make_field fn tok ?l)"
      by (auto simp: field_of_line_def make_field_def Let_def)
    with Cons.prems(2) have "\<forall>f\<in>set (fs @ [make_field fn tok ?l]). field_of_line f" by simp
    from Cons.IH [OF r this] show ?thesis .
  qed
qed

lemma set_update_subset: "set (AList.update k v al) \<subseteq> insert (k, v) (set al)"
  by (induction al) auto

lemma parse_step_invariant:
  assumes "parse_step lines i enums models = Inr (i', enums', models')"
    and "\<forall>ke\<in>set enums. parsed_enum ke" and "\<forall>km\<in>set models. parsed_model km"
  shows "(\<forall>ke\<in>set enums'. parsed_enum ke) \<and> (\<forall>km\<in>set models'. parsed_model km)"
proof -
  let ?line = "strip (lines ! i)"
  let ?parts = "split_ws ?line"
  let ?body = "snd (collect_body lines
                 (if CHR ''{'' \<notin> set ?line then skip_to_brace lines (i + 1) + 1 else i + 1) [])"
  from assms(1) have l: "nth_py lines i = Inr (lines ! i)"
    by (auto simp: parse_step_def nth_py_def split: if_splits)
  show ?thesis
  proof (cases "(startswith ?line ''model '' \<or> startswith ?line ''enum '') \<and> \<not> length ?parts < 2")
    case False
    with assms(1) l have "enums' = enums" and "models' = models"
      by (auto simp: parse_step_def Let_def split: if_splits)
    with assms(2,3) show ?thesis by simp
  next
    case True
    then have p: "nth_py ?parts 0 = Inr (?parts ! 0)" "nth_py ?parts 1 = Inr (?parts ! 1)"
      by (auto simp: nth_py_def)
    have tok: "is_token (?parts ! 1)"
      by (rule split_ws_tokens [OF nth_py_in_set [OF p(2)]])
    show ?thesis
    proof (cases "?parts ! 0 = ''enum''")
      case e: True
      with True l p assms(1) obtain vals where
        v: "parse_enum_body ?body [] = Inr vals" and
        e': "enums' = AList.update (?parts ! 1)
               \<lparr>EnumDef.name = ?parts ! 1, enum_values = vals\<rparr> enums" and m': "models' = models"
        by (auto simp: parse_step_def Let_def split: sum.splits)
      from parse_enum_body_tokens [OF v] have "\<forall>v\<in>set vals. is_token v" by simp
      with tok have "parsed_enum (?parts ! 1, \<lparr>EnumDef.name = ?parts ! 1, enum_values = vals\<rparr>)"
        by (simp add: parsed_enum_def)
      with assms(2) e' have "\<forall>ke\<in>set enums'. parsed_enum ke"
        using set_update_subset by fastforce
      with m' assms(3) show ?thesis by simp
    next
      case ne: False
      show ?thesis
      proof (cases "?parts ! 0 = ''model''")
        case False
        with ne True l p assms(1) have "enums' = enums" and "models' = models"
          by (auto simp: parse_step_def Let_def split: if_splits)
        with assms(2,3) show ?thesis by simp
      next
        case m: True
        with ne True l p assms(1) obtain fs sn where
          v: "parse_model_body ?body [] None = Inr (fs, sn)" and
          m': "models' = AList.update (?parts ! 1)
                 \<lparr>ModelDef.name = ?parts ! 1, model_fields = fs, schema = sn\<rparr> models" and
          e': "enums' = enums"
          by (auto simp: parse_step_def Let_def split: sum.splits)
        from parse_model_body_fields [OF v] have "\<forall>f\<in>set fs. field_of_line f" by simp
        with tok have "parsed_model (?parts ! 1,
            \<lparr>ModelDef.name = ?parts ! 1, model_fields = fs, schema = sn\<rparr>)"
          by (simp add: parsed_model_def)
        with assms(3) m' have "\<forall>km\<in>set models'. parsed_model km"
          using set_update_subset by fastforce
        with e' assms(2) show ?thesis by simp
      qed
    qed
  qed
qed

lemma parse_loop_invariant:
  "parse_loop lines i enums models = Inr (enums', models') \<Longrightarrow>
   \<forall>ke\<in>set enums. parsed_enum ke \<Longrightarrow> \<forall>km\<in>set models. parsed_model km \<Longrightarrow>
   (\<forall>ke\<in>set enums'. parsed_enum ke) \<and> (\<forall>km\<in>set models'. parsed_model km)"
proof (induction lines i enums models rule: parse_loop.induct)
  case (1 lines i enums models)
  show ?case
  proof (cases "i < length lines")
    case False
    with 1(2) have "enums' = enums" "models' = models"
      by (subst (asm) parse_loop.simps, simp)+
    with 1(3,4) show ?thesis by simp
  next
    case True
    with 1(2) obtain j e m where
      s: "parse_step lines i enums models = Inr (j, e, m)" and
      r: "parse_loop lines j e m = Inr (enums', models')"
      by (subst (asm) parse_loop.simps) (auto split: sum.splits)
    from parse_step_invariant [OF s 1(3,4)]
    have "\<forall>ke\<in>set e. parsed_enum ke" and "\<forall>km\<in>set m. parsed_model km" by simp_all
    from 1(1) [OF True s refl refl r this] show ?thesis .
  qed
qed

lemma parse_prisma_invariant:
  assumes "parse_prisma s = Inr (enums, models)"
  shows "(\<forall>ke\<in>set enums. parsed_enum ke) \<and> (\<forall>km\<in>set models. parsed_model km)"
  using assms parse_loop_invariant [of _ 0 "[]" "[]" enums models]
  by (simp add: parse_prisma_def Let_def)


lemma endswith_append: "endswith (pre @ p) p"
  by (simp add: endswith_def)

lemma endswithD: "endswith s p \<Longrightarrow> \<exists>pre. s = pre @ p"
  by (metis append_take_drop_id endswith_def)

lemma has_brackets_append: "has_brackets (pre @ ''[]'')"
  by (induction pre rule: has_brackets.induct) simp_all

lemma modifier_free_endswith:
  assumes "modifier_free b"
  shows "\<not> endswith b ''?''" and "\<not> endswith b ''[]''"
proof -
  show "\<not> endswith b ''?''"
  proof
    assume "endswith b ''?''"
    then obtain pre where "b = pre @ ''?''" using endswithD by blast
    with assms show False by (simp add: modifier_free_def)
  qed
  show "\<not> endswith b ''[]''"
  proof
    assume "endswith b ''[]''"
    then obtain pre where "b = pre @ ''[]''" using endswithD by blast
    with assms has_brackets_append [of pre] show False by (simp add: modifier_free_def)
  qed
qed

lemma make_field_plain:
  assumes "modifier_free b"
  shows "make_field n b l =
    \<lparr>FieldDef.name = n, type_name = b, is_optional = False, is_list = False, raw_line = l\<rparr>"
  using modifier_free_endswith [OF assms] by (simp add: make_field_def Let_def)

lemma make_field_optional:
  assumes "modifier_free b"
  shows "make_field n (b @ ''?'') l =
    \<lparr>FieldDef.name = n, type_name = b, is_optional = True, is_list = False, raw_line = l\<rparr>"
proof -
  have "endswith (b @ ''?'') ''?''" by (rule endswith_append)
  moreover have "butlast (b @ ''?'') = b" by (simp add: butlast_append)
  ultimately show ?thesis
    using modifier_free_endswith(2) [OF assms] by (simp add: make_field_def Let_def)
qed

lemma make_field_list:
  assumes "modifier_free b"
  shows "make_field n (b @ ''[]'') l =
    \<lparr>FieldDef.name = n, type_name = b, is_optional = False, is_list = True, raw_line = l\<rparr>"
proof -
  have "\<not> endswith (b @ ''[]'') ''?''" by (simp add: endswith_def)
  moreover have "endswith (b @ ''[]'') ''[]''" by (rule endswith_append)
  ultimately show ?thesis by (simp add: make_field_def Let_def)
qed

lemma make_field_optional_list:
  assumes "modifier_free b"
  shows "make_field n (b @ ''[]?'') l =
    \<lparr>FieldDef.name = n, type_name = b, is_optional = True, is_list = True, raw_line = l\<rparr>"
proof -
  have "endswith (b @ ''[]?'') ''?''"
    using endswith_append [of "b @ ''[]''" "''?''"] by simp
  moreover have "butlast (b @ ''[]?'') = b @ ''[]''" by (simp add: butlast_append)
  moreover have "endswith (b @ ''[]'') ''[]''" by (rule endswith_append)
  ultimately show ?thesis by (simp add: make_field_def Let_def)
qed

section \<open>The split-file emitter\<close>
























text \<open>
  C4 as stated fails: the numeric target name is the image of four source scalars, not
  three.
\<close>

theorem numeric_collapse_counterexample:
  "scalars_mapped_to ''number'' = [''Int'', ''Float'', ''BigInt'', ''Decimal''] \<and>
   length (scalars_mapped_to ''number'') \<noteq> 3"
  by (simp add: scalars_mapped_to_def SCALAR_TS_MAP_def)

text \<open>
  C4, as amended. The keys of the scalar table are distinct, so each source scalar has one
  target type name; the numeric target name \<open>number\<close> is the image of exactly four distinct
  source scalars (\<open>Int\<close>, \<open>Float\<close>, \<open>BigInt\<close> and \<open>Decimal\<close>); the table maps \<open>String\<close> to
  \<open>string\<close>, \<open>Boolean\<close> to \<open>boolean\<close>, \<open>DateTime\<close> to the alias \<open>DateTimeString\<close> and \<open>Json\<close>
  to the alias \<open>JsonValue\<close>.
\<close>

theorem scalar_table:
  "distinct (map fst SCALAR_TS_MAP) \<and>
   scalars_mapped_to ''number'' = [''Int'', ''Float'', ''BigInt'', ''Decimal''] \<and>
   distinct (scalars_mapped_to ''number'') \<and>
   length (scalars_mapped_to ''number'') = 4 \<and>
   map_of SCALAR_TS_MAP ''String'' = Some ''string'' \<and>
   map_of SCALAR_TS_MAP ''Boolean'' = Some ''boolean'' \<and>
   map_of SCALAR_TS_MAP ''DateTime'' = Some ''DateTimeString'' \<and>
   map_of SCALAR_TS_MAP ''Json'' = Some ''JsonValue''"
  by (simp add: scalars_mapped_to_def SCALAR_TS_MAP_def)




text \<open>
  C9. For a field whose type name is not in the scalar table, not an enum name and not a
  model name, the nested policy emits the type name itself as the base type (followed by
  \<open>[]\<close> for a list, by \<open> | null\<close> for an optional non-list field), and the flat policy emits
  \<open>any\<close> in its place.
\<close>

theorem unknown_base_type:
  assumes "map_of SCALAR_TS_MAP (type_name f) = None"
    and "type_name f \<notin> enum_names"
    and "type_name f \<notin> model_names"
  shows "prisma_field_to_ts f model_names enum_names =
           (if is_list f then type_name f @ ''[]''
            else if is_optional f then type_name f @ '' | null''
            else type_name f) \<and>
         prisma_field_to_ts_flat f enum_names =
           (if is_list f then (if is_optional f then ''any[] | null'' else ''any[]'')
            else if is_optional f then ''any | null''
            else ''any'')"
  using assms by (simp add: prisma_field_to_ts_def prisma_field_to_ts_flat_def)

text \<open>The theorem at the fields \<open>x Foo\<close> and \<open>xs Foo[]\<close>.\<close>

theorem unknown_base_type_witness:
  "map_of SCALAR_TS_MAP ''Foo'' = None \<and> ''Foo'' \<notin> {''Role''} \<and> ''Foo'' \<notin> {''User''} \<and>
   prisma_field_to_ts
     \<lparr>FieldDef.name = ''x'', type_name = ''Foo'', is_optional = False, is_list = False,
      raw_line = ''x Foo''\<rparr> {''User''} {''Role''} = ''Foo'' \<and>
   prisma_field_to_ts_flat
     \<lparr>FieldDef.name = ''x'', type_name = ''Foo'', is_optional = False, is_list = False,
      raw_line = ''x Foo''\<rparr> {''Role''} = ''any'' \<and>
   prisma_field_to_ts
     \<lparr>FieldDef.name = ''xs'', type_name = ''Foo'', is_optional = False, is_list = True,
      raw_line = ''xs Foo[]''\<rparr> {''User''} {''Role''} = ''Foo[]'' \<and>
   prisma_field_to_ts_flat
     \<lparr>FieldDef.name = ''xs'', type_name = ''Foo'', is_optional = False, is_list = True,
      raw_line = ''xs Foo[]''\<rparr> {''Role''} = ''any[]''"
proof -
  have h1: "map_of SCALAR_TS_MAP ''Foo'' = None" by (simp add: SCALAR_TS_MAP_def)
  have h2: "''Foo'' \<notin> {''Role''}" by simp
  have h3: "''Foo'' \<notin> {''User''}" by simp
  show ?thesis
    using h1 h2 h3
      unknown_base_type [of "\<lparr>FieldDef.name = ''x'', type_name = ''Foo'', is_optional = False,
        is_list = False, raw_line = ''x Foo''\<rparr>" "{''Role''}" "{''User''}"]
      unknown_base_type [of "\<lparr>FieldDef.name = ''xs'', type_name = ''Foo'', is_optional = False,
        is_list = True, raw_line = ''xs Foo[]''\<rparr>" "{''Role''}" "{''User''}"]
    by simp
qed

text \<open>
  C10. Under the nested policy an optional non-list field whose type name is not in the
  scalar table, not an enum name and not a model name is rendered as the type name followed
  by \<open> | null\<close>.
\<close>

theorem optional_unknown_nested:
  assumes "\<not> is_list f" and "is_optional f"
    and "map_of SCALAR_TS_MAP (type_name f) = None"
    and "type_name f \<notin> enum_names"
    and "type_name f \<notin> model_names"
  shows "prisma_field_to_ts f model_names enum_names = type_name f @ '' | null''"
  using assms by (simp add: prisma_field_to_ts_def)

text \<open>The theorem at the field \<open>x Foo?\<close>.\<close>

theorem optional_unknown_nested_witness:
  "map_of SCALAR_TS_MAP ''Foo'' = None \<and> ''Foo'' \<notin> {''Role''} \<and> ''Foo'' \<notin> {''User''} \<and>
   prisma_field_to_ts
     \<lparr>FieldDef.name = ''x'', type_name = ''Foo'', is_optional = True, is_list = False,
      raw_line = ''x Foo?''\<rparr> {''User''} {''Role''} = ''Foo | null''"
proof -
  have h1: "map_of SCALAR_TS_MAP ''Foo'' = None" by (simp add: SCALAR_TS_MAP_def)
  have h2: "''Foo'' \<notin> {''Role''}" by simp
  have h3: "''Foo'' \<notin> {''User''}" by simp
  show ?thesis
    using h1 h2 h3
      optional_unknown_nested [of "\<lparr>FieldDef.name = ''x'', type_name = ''Foo'',
        is_optional = True, is_list = False, raw_line = ''x Foo?''\<rparr>" "{''Role''}" "{''User''}"]
    by simp
qed

text \<open>
  C8. With \<open>generate_flat\<close> set, the text that \<open>generate_single_file\<close> returns holds, for
  each model, the header of the flat interface, then one line for each field of the model
  whose type name is not a model name, in declaration order and with its flat-policy type,
  then the closing brace, each on a line of its own: a relation field has no line there.
  The same block stands in the list of lines that is joined.
\<close>

theorem flat_interface_fields:
  assumes "m \<in> set (map snd models)"
  shows "sublist
           (join ''\<newline>''
              ([''export interface '' @ ModelDef.name m @ ''Flat {''] @
               map (\<lambda>f. ''  '' @ FieldDef.name f @ '': '' @
                         prisma_field_to_ts_flat f (set (map fst enums)) @ '';'')
                 (filter (\<lambda>f. type_name f \<notin> set (map fst models)) (model_fields m)) @
               [''}'']))
           (generate_single_file enums models True) \<and>
         sublist
           ([''export interface '' @ ModelDef.name m @ ''Flat {''] @
            map (\<lambda>f. ''  '' @ FieldDef.name f @ '': '' @
                      prisma_field_to_ts_flat f (set (map fst enums)) @ '';'')
              (filter (\<lambda>f. type_name f \<notin> set (map fst models)) (model_fields m)) @
            [''}''])
           (generate_single_file_lines enums models True)"
proof -
  let ?b = "[''export interface '' @ ModelDef.name m @ ''Flat {''] @
            map (\<lambda>f. ''  '' @ FieldDef.name f @ '': '' @
                      prisma_field_to_ts_flat f (set (map fst enums)) @ '';'')
              (filter (\<lambda>f. type_name f \<notin> set (map fst models)) (model_fields m)) @ [''}'']"
  have l: "sublist ?b (generate_single_file_lines enums models True)"
    using assms by (rule flat_interface_block)
  have "?b \<noteq> []" by simp
  with l have "sublist (join ''\<newline>'' ?b)
                 (join ''\<newline>'' (generate_single_file_lines enums models True))"
    by (rule sublist_join)
  then have t: "sublist (join ''\<newline>'' ?b) (generate_single_file enums models True)"
    by (simp only: generate_single_file_def)
  from t l show ?thesis by (rule conjI)
qed

text \<open>
  The theorem at \<open>model Post { id String, author User }\<close> with \<open>User\<close> a model: the flat
  interface has the line of \<open>id\<close> and no line of \<open>author\<close>.
\<close>

theorem flat_interface_fields_witness:
  "\<lparr>ModelDef.name = ''Post'',
     model_fields =
       [\<lparr>FieldDef.name = ''id'', type_name = ''String'', is_optional = False, is_list = False,
         raw_line = ''id String''\<rparr>,
        \<lparr>FieldDef.name = ''author'', type_name = ''User'', is_optional = False, is_list = False,
         raw_line = ''author User''\<rparr>],
     schema = None\<rparr>
   \<in> set (map snd
        [(''Post'',
          \<lparr>ModelDef.name = ''Post'',
           model_fields =
             [\<lparr>FieldDef.name = ''id'', type_name = ''String'', is_optional = False,
               is_list = False, raw_line = ''id String''\<rparr>,
              \<lparr>FieldDef.name = ''author'', type_name = ''User'', is_optional = False,
               is_list = False, raw_line = ''author User''\<rparr>],
           schema = None\<rparr>),
         (''User'', \<lparr>ModelDef.name = ''User'', model_fields = [], schema = None\<rparr>)]) \<and>
   sublist ''export interface PostFlat {\<newline>  id: string;\<newline>}''
     (generate_single_file []
        [(''Post'',
          \<lparr>ModelDef.name = ''Post'',
           model_fields =
             [\<lparr>FieldDef.name = ''id'', type_name = ''String'', is_optional = False,
               is_list = False, raw_line = ''id String''\<rparr>,
              \<lparr>FieldDef.name = ''author'', type_name = ''User'', is_optional = False,
               is_list = False, raw_line = ''author User''\<rparr>],
           schema = None\<rparr>),
         (''User'', \<lparr>ModelDef.name = ''User'', model_fields = [], schema = None\<rparr>)]
        True) \<and>
   sublist [''export interface PostFlat {'', ''  id: string;'', ''}'']
     (generate_single_file_lines []
        [(''Post'',
          \<lparr>ModelDef.name = ''Post'',
           model_fields =
             [\<lparr>FieldDef.name = ''id'', type_name = ''String'', is_optional = False,
               is_list = False, raw_line = ''id String''\<rparr>,
              \<lparr>FieldDef.name = ''author'', type_name = ''User'', is_optional = False,
               is_list = False, raw_line = ''author User''\<rparr>],
           schema = None\<rparr>),
         (''User'', \<lparr>ModelDef.name = ''User'', model_fields = [], schema = None\<rparr>)]
        True)"
  using flat_interface_fields
    [of "\<lparr>ModelDef.name = ''Post'',
          model_fields =
            [\<lparr>FieldDef.name = ''id'', type_name = ''String'', is_optional = False,
              is_list = False, raw_line = ''id String''\<rparr>,
             \<lparr>FieldDef.name = ''author'', type_name = ''User'', is_optional = False,
              is_list = False, raw_line = ''author User''\<rparr>],
          schema = None\<rparr>"
        "[(''Post'',
          \<lparr>ModelDef.name = ''Post'',
           model_fields =
             [\<lparr>FieldDef.name = ''id'', type_name = ''String'', is_optional = False,
               is_list = False, raw_line = ''id String''\<rparr>,
              \<lparr>FieldDef.name = ''author'', type_name = ''User'', is_optional = False,
               is_list = False, raw_line = ''author User''\<rparr>],
           schema = None\<rparr>),
         (''User'', \<lparr>ModelDef.name = ''User'', model_fields = [], schema = None\<rparr>)]"
        "[]"]
  by (simp add: prisma_field_to_ts_flat_def scalar_lookup_simps)

text \<open>
  C7 as stated fails: a last line that is empty once its comment is cut is no line of the
  returned text any more. The input \<open>//x\<close> has one line, the returned text has none.
\<close>

theorem strip_line_comments_counterexample:
  "splitlines ''//x'' = [''//x''] \<and> strip_line_comments ''//x'' = [] \<and>
   splitlines (strip_line_comments ''//x'') = []"
  by (simp add: strip_line_comments_def is_linebreak_def)

text \<open>
  C7, as amended. The returned text is the lines of the input (as \<open>splitlines\<close> gives
  them), each cut at its first \<open>//\<close>, joined with a newline. Split again, it gives the cut
  lines in order, one for each line of the input, except that a last line that is empty
  after the cut is dropped. A line without the marker is unchanged; a line with it is the
  kept text, the marker and a rest, and the kept text followed by a slash has no marker, so
  the cut is at the first one.
\<close>

theorem strip_line_comments_lines:
  "strip_line_comments s = join ''\<newline>'' (map cut_comment (splitlines s)) \<and>
   splitlines (strip_line_comments s) =
     (if splitlines s \<noteq> [] \<and> cut_comment (last (splitlines s)) = []
      then map cut_comment (butlast (splitlines s))
      else map cut_comment (splitlines s)) \<and>
   (\<not> has_marker l \<longrightarrow> cut_comment l = l) \<and>
   (has_marker l \<longrightarrow>
      (\<exists>rest. l = cut_comment l @ ''//'' @ rest) \<and> \<not> has_marker (cut_comment l @ ''/''))"
proof -
  have a: "strip_line_comments s = join ''\<newline>'' (map cut_comment (splitlines s))"
    by (simp add: strip_line_comments_def strip_line_comments_loop_eq)
  have "\<forall>l\<in>set (map cut_comment (splitlines s)). \<forall>c\<in>set l. \<not> is_linebreak c"
    using splitlines_no_linebreak set_cut_comment by fastforce
  then have b: "splitlines (strip_line_comments s) =
     (if splitlines s \<noteq> [] \<and> cut_comment (last (splitlines s)) = []
      then map cut_comment (butlast (splitlines s))
      else map cut_comment (splitlines s))"
    unfolding a by (subst splitlines_join) (auto simp: last_map map_butlast)
  have c: "\<not> has_marker l \<longrightarrow> cut_comment l = l" by (simp add: cut_comment_def)
  have d: "has_marker l \<longrightarrow>
      (\<exists>rest. l = cut_comment l @ ''//'' @ rest) \<and> \<not> has_marker (cut_comment l @ ''/'')"
    using before_marker_split [of l] before_marker_first [of l] by (simp add: cut_comment_def)
  from a b c d show ?thesis by blast
qed

text \<open>The theorem at a three-line text whose second line has a comment.\<close>

theorem strip_line_comments_lines_witness:
  "has_marker ''b // c'' \<and>
   strip_line_comments ''a\<newline>b // c\<newline>d'' = ''a\<newline>b \<newline>d'' \<and>
   splitlines (strip_line_comments ''a\<newline>b // c\<newline>d'') = [''a'', ''b '', ''d''] \<and>
   cut_comment ''b // c'' = ''b ''"
  using strip_line_comments_lines [of "''a\<newline>b // c\<newline>d''" "''b // c''"]
  by (simp add: cut_comment_def is_linebreak_def)

text \<open>
  C3. For every input text \<open>parse_prisma\<close> returns an enum dictionary and a model
  dictionary: no list is indexed out of range in it, whatever the lines are, and its loops
  end. The lines it cannot use are skipped. A line that does not start, once stripped, with
  \<open>model\<close> or \<open>enum\<close> and a space (a header without a name is such a line) leaves both
  dictionaries as they are and moves the cursor by one. A line of a model body with fewer
  than two tokens adds no field (a body line with two or more tokens is a field, whatever it
  says), and an empty line or a line that starts with \<open>@\<close> adds no value to an enum. A
  header whose opening brace never comes before the end of the text stores a definition with
  no fields or no values.
\<close>

theorem parse_prisma_total:
  "(\<exists>enums models. parse_prisma schema_text = Inr (enums, models)) \<and>
   (i < length lines \<and> \<not> startswith (strip (lines ! i)) ''model '' \<and>
    \<not> startswith (strip (lines ! i)) ''enum '' \<longrightarrow>
      parse_step lines i enums0 models0 = Inr (i + 1, enums0, models0)) \<and>
   (length (split_ws (strip raw)) < 2 \<longrightarrow>
      parse_model_body (raw # rest) fs sn =
        parse_model_body rest fs
          (if strip raw \<noteq> [] \<and> startswith (strip raw) ''@@schema'' then
             (case re_search_schema (strip raw) of Some g \<Rightarrow> Some g | None \<Rightarrow> sn)
           else sn)) \<and>
   (strip raw = [] \<or> startswith (strip raw) ''@'' \<longrightarrow>
      parse_enum_body (raw # rest) vals = parse_enum_body rest vals) \<and>
   (i < length lines \<and> (\<forall>j. i \<le> j \<and> j < length lines \<longrightarrow> CHR ''{'' \<notin> set (lines ! j)) \<longrightarrow>
      (startswith (strip (lines ! i)) ''model '' \<longrightarrow>
         (\<exists>nm. parse_step lines i enums0 models0 =
            Inr (length lines + 2, enums0,
                 AList.update nm
                   \<lparr>ModelDef.name = nm, model_fields = [], schema = None\<rparr> models0))) \<and>
      (startswith (strip (lines ! i)) ''enum '' \<longrightarrow>
         (\<exists>nm. parse_step lines i enums0 models0 =
            Inr (length lines + 2,
                 AList.update nm \<lparr>EnumDef.name = nm, enum_values = []\<rparr> enums0, models0))))"
proof (intro conjI impI)
  show "\<exists>enums models. parse_prisma schema_text = Inr (enums, models)"
    unfolding parse_prisma_def Let_def by (rule parse_loop_total)
next
  assume "i < length lines \<and> \<not> startswith (strip (lines ! i)) ''model '' \<and>
          \<not> startswith (strip (lines ! i)) ''enum ''"
  then show "parse_step lines i enums0 models0 = Inr (i + 1, enums0, models0)"
    using parse_step_other_line by blast
next
  assume "length (split_ws (strip raw)) < 2"
  then show "parse_model_body (raw # rest) fs sn =
        parse_model_body rest fs
          (if strip raw \<noteq> [] \<and> startswith (strip raw) ''@@schema'' then
             (case re_search_schema (strip raw) of Some g \<Rightarrow> Some g | None \<Rightarrow> sn)
           else sn)"
    by (rule parse_model_body_short_line)
next
  assume "strip raw = [] \<or> startswith (strip raw) ''@''"
  then show "parse_enum_body (raw # rest) vals = parse_enum_body rest vals"
    by (rule parse_enum_body_other_line)
next
  assume a: "i < length lines \<and>
             (\<forall>j. i \<le> j \<and> j < length lines \<longrightarrow> CHR ''{'' \<notin> set (lines ! j))"
    and h: "startswith (strip (lines ! i)) ''model ''"
  from a have "i < length lines"
    and "\<forall>j. i \<le> j \<and> j < length lines \<longrightarrow> CHR ''{'' \<notin> set (lines ! j)" by simp_all
  from parse_step_no_brace [OF this, of enums0 models0, THEN conjunct1, THEN mp, OF h]
  show "\<exists>nm. parse_step lines i enums0 models0 =
            Inr (length lines + 2, enums0,
                 AList.update nm
                   \<lparr>ModelDef.name = nm, model_fields = [], schema = None\<rparr> models0)" .
next
  assume a: "i < length lines \<and>
             (\<forall>j. i \<le> j \<and> j < length lines \<longrightarrow> CHR ''{'' \<notin> set (lines ! j))"
    and h: "startswith (strip (lines ! i)) ''enum ''"
  from a have "i < length lines"
    and "\<forall>j. i \<le> j \<and> j < length lines \<longrightarrow> CHR ''{'' \<notin> set (lines ! j)" by simp_all
  from parse_step_no_brace [OF this, of enums0 models0, THEN conjunct2, THEN mp, OF h]
  show "\<exists>nm. parse_step lines i enums0 models0 =
            Inr (length lines + 2,
                 AList.update nm \<lparr>EnumDef.name = nm, enum_values = []\<rparr> enums0, models0)" .
qed

text \<open>
  The theorem at a model whose only body line is one word and an enum with no brace, at a
  line that is no header, at an attribute line in a model body and in an enum body, and at a
  model header with no brace.
\<close>

theorem parse_prisma_total_witness:
  "parse_prisma ''model A {\<newline>  garbage\<newline>}\<newline>enum E'' =
     Inr ([(''E'', \<lparr>EnumDef.name = ''E'', enum_values = []\<rparr>)],
          [(''A'', \<lparr>ModelDef.name = ''A'', model_fields = [], schema = None\<rparr>)]) \<and>
   parse_step [''hello world''] 0 [] [] = Inr (1, [], []) \<and>
   parse_model_body [''@db''] [] None = Inr ([], None) \<and>
   parse_enum_body [''@db''] [] = Inr [] \<and>
   (\<exists>nm. parse_step [''model A''] 0 [] [] =
      Inr (3, [], [(nm, \<lparr>ModelDef.name = nm, model_fields = [], schema = None\<rparr>)])) \<and>
   parse_step [''model A''] 0 [] [] =
      Inr (3, [], [(''A'', \<lparr>ModelDef.name = ''A'', model_fields = [], schema = None\<rparr>)])"
proof -
  note T = parse_prisma_total [where lines = "[''hello world'']" and i = 0 and raw = "''@db''"
      and rest = "[]" and fs = "[]" and sn = None and vals = "[]" and ?enums0.0 = "[]"
      and ?models0.0 = "[]"]
  note U = parse_prisma_total [where lines = "[''model A'']" and i = 0 and ?enums0.0 = "[]"
      and ?models0.0 = "[]"]
  have t1: "parse_prisma ''model A {\<newline>  garbage\<newline>}\<newline>enum E'' =
     Inr ([(''E'', \<lparr>EnumDef.name = ''E'', enum_values = []\<rparr>)],
          [(''A'', \<lparr>ModelDef.name = ''A'', model_fields = [], schema = None\<rparr>)])"
    by code_simp
  have h2: "(0::nat) < length [''hello world''] \<and>
            \<not> startswith (strip ([''hello world''] ! 0)) ''model '' \<and>
            \<not> startswith (strip ([''hello world''] ! 0)) ''enum ''"
    by code_simp
  have h3: "length (split_ws (strip ''@db'')) < 2" by code_simp
  have h3': "\<not> startswith (strip ''@db'') ''@@schema''" by code_simp
  have h4: "strip ''@db'' = [] \<or> startswith (strip ''@db'') ''@''" by code_simp
  have h5: "(0::nat) < length [''model A''] \<and>
            (\<forall>j. 0 \<le> j \<and> j < length [''model A''] \<longrightarrow> CHR ''{'' \<notin> set ([''model A''] ! j))"
    by simp
  have h5': "startswith (strip ([''model A''] ! 0)) ''model ''" by code_simp
  from T [THEN conjunct2, THEN conjunct1, THEN mp, OF h2]
  have t2: "parse_step [''hello world''] 0 [] [] = Inr (1, [], [])" by simp
  from T [THEN conjunct2, THEN conjunct2, THEN conjunct1, THEN mp, OF h3] h3'
  have t3: "parse_model_body [''@db''] [] None = Inr ([], None)" by simp
  from T [THEN conjunct2, THEN conjunct2, THEN conjunct2, THEN conjunct1, THEN mp, OF h4]
  have t4: "parse_enum_body [''@db''] [] = Inr []" by simp
  from U [THEN conjunct2, THEN conjunct2, THEN conjunct2, THEN conjunct2, THEN mp, OF h5,
          THEN conjunct1, THEN mp, OF h5']
  have t5: "\<exists>nm. parse_step [''model A''] 0 [] [] =
      Inr (3, [], [(nm, \<lparr>ModelDef.name = nm, model_fields = [], schema = None\<rparr>)])"
    by (simp add: numeral_3_eq_3)
  have t6: "parse_step [''model A''] 0 [] [] =
      Inr (3, [], [(''A'', \<lparr>ModelDef.name = ''A'', model_fields = [], schema = None\<rparr>)])"
    by code_simp
  from t1 t2 t3 t4 t5 t6 show ?thesis by (intro conjI)
qed

text \<open>
  C5. The claim is what the comment on \<open>FieldDef.type_name\<close> says (the base type, without
  \<open>?\<close> and without \<open>[]\<close>), and the parser does not keep it: the decomposition removes one
  trailing \<open>?\<close> and then one trailing \<open>[]\<close>, and nothing more. The field line \<open>v Y??\<close>
  is stored with the type name \<open>Y?\<close>, and \<open>w Int[][]\<close> with \<open>Int[]\<close>.
\<close>

theorem type_name_keeps_modifiers:
  "parse_prisma ''model A {\<newline>  v Y??\<newline>  w Int[][]\<newline>}'' =
     Inr ([],
          [(''A'',
            \<lparr>ModelDef.name = ''A'',
             model_fields =
               [\<lparr>FieldDef.name = ''v'', type_name = ''Y?'', is_optional = True, is_list = False,
                 raw_line = ''v Y??''\<rparr>,
                \<lparr>FieldDef.name = ''w'', type_name = ''Int[]'', is_optional = False,
                 is_list = True, raw_line = ''w Int[][]''\<rparr>],
             schema = None\<rparr>)]) \<and>
   CHR ''?'' \<in> set ''Y?'' \<and> has_brackets ''Int[]''"
  by code_simp

text \<open>
  What the decomposition does achieve: every field that the parser stores is built from the
  first two tokens of its line, and where the type token is \<open>B\<close>, \<open>B?\<close>, \<open>B[]\<close> or \<open>B[]?\<close>
  for a \<open>B\<close> with no \<open>?\<close> and no \<open>[]\<close> in it, the type name is \<open>B\<close> and the two flags say
  which suffixes were there.
\<close>

lemma parsed_type_name:
  assumes "parse_prisma s = Inr (enums, models)"
    and "(k, m) \<in> set models" and "f \<in> set (model_fields m)"
  shows "\<exists>field_name type_token rest.
           split_ws (raw_line f) = field_name # type_token # rest \<and>
           f = make_field field_name type_token (raw_line f) \<and>
           (\<forall>b. modifier_free b \<longrightarrow>
              (type_token = b \<longrightarrow> type_name f = b \<and> \<not> is_optional f \<and> \<not> is_list f) \<and>
              (type_token = b @ ''?'' \<longrightarrow> type_name f = b \<and> is_optional f \<and> \<not> is_list f) \<and>
              (type_token = b @ ''[]'' \<longrightarrow> type_name f = b \<and> \<not> is_optional f \<and> is_list f) \<and>
              (type_token = b @ ''[]?'' \<longrightarrow> type_name f = b \<and> is_optional f \<and> is_list f))"
proof -
  from parse_prisma_invariant [OF assms(1)] assms(2) have "parsed_model (k, m)" by blast
  with assms(3) have "field_of_line f" by (simp add: parsed_model_def)
  then obtain fn tok rest where
    sp: "split_ws (raw_line f) = fn # tok # rest" and f: "f = make_field fn tok (raw_line f)"
    unfolding field_of_line_def by blast
  have "(tok = b \<longrightarrow> type_name f = b \<and> \<not> is_optional f \<and> \<not> is_list f) \<and>
        (tok = b @ ''?'' \<longrightarrow> type_name f = b \<and> is_optional f \<and> \<not> is_list f) \<and>
        (tok = b @ ''[]'' \<longrightarrow> type_name f = b \<and> \<not> is_optional f \<and> is_list f) \<and>
        (tok = b @ ''[]?'' \<longrightarrow> type_name f = b \<and> is_optional f \<and> is_list f)"
    if b: "modifier_free b" for b
  proof (intro conjI impI)
    assume "tok = b"
    with f have "f = make_field fn b (raw_line f)" by simp
    then have "f = \<lparr>FieldDef.name = fn, type_name = b, is_optional = False, is_list = False,
                    raw_line = raw_line f\<rparr>"
      by (simp only: make_field_plain [OF b])
    then show "type_name f = b" "\<not> is_optional f" "\<not> is_list f"
      by (metis FieldDef.select_convs(2), metis FieldDef.select_convs(3),
          metis FieldDef.select_convs(4))
  next
    assume "tok = b @ ''?''"
    with f have "f = make_field fn (b @ ''?'') (raw_line f)" by simp
    then have "f = \<lparr>FieldDef.name = fn, type_name = b, is_optional = True, is_list = False,
                    raw_line = raw_line f\<rparr>"
      by (simp only: make_field_optional [OF b])
    then show "type_name f = b" "is_optional f" "\<not> is_list f"
      by (metis FieldDef.select_convs(2), metis FieldDef.select_convs(3),
          metis FieldDef.select_convs(4))
  next
    assume "tok = b @ ''[]''"
    with f have "f = make_field fn (b @ ''[]'') (raw_line f)" by simp
    then have "f = \<lparr>FieldDef.name = fn, type_name = b, is_optional = False, is_list = True,
                    raw_line = raw_line f\<rparr>"
      by (simp only: make_field_list [OF b])
    then show "type_name f = b" "\<not> is_optional f" "is_list f"
      by (metis FieldDef.select_convs(2), metis FieldDef.select_convs(3),
          metis FieldDef.select_convs(4))
  next
    assume "tok = b @ ''[]?''"
    with f have "f = make_field fn (b @ ''[]?'') (raw_line f)" by simp
    then have "f = \<lparr>FieldDef.name = fn, type_name = b, is_optional = True, is_list = True,
                    raw_line = raw_line f\<rparr>"
      by (simp only: make_field_optional_list [OF b])
    then show "type_name f = b" "is_optional f" "is_list f"
      by (metis FieldDef.select_convs(2), metis FieldDef.select_convs(3),
          metis FieldDef.select_convs(4))
  qed
  with sp f show ?thesis by blast
qed

text \<open>The field \<open>u X[]?\<close> of a parsed model.\<close>

lemma parsed_type_name_example:
  "parse_prisma ''model A {\<newline>  u X[]?\<newline>}'' =
     Inr ([],
          [(''A'',
            \<lparr>ModelDef.name = ''A'',
             model_fields =
               [\<lparr>FieldDef.name = ''u'', type_name = ''X'', is_optional = True, is_list = True,
                 raw_line = ''u X[]?''\<rparr>],
             schema = None\<rparr>)]) \<and>
   split_ws ''u X[]?'' = [''u'', ''X[]?''] \<and>
   modifier_free ''X'' \<and>
   type_name
     \<lparr>FieldDef.name = ''u'', type_name = ''X'', is_optional = True, is_list = True,
      raw_line = ''u X[]?''\<rparr> = ''X''"
proof -
  let ?f = "\<lparr>FieldDef.name = ''u'', type_name = ''X'', is_optional = True, is_list = True,
             raw_line = ''u X[]?''\<rparr>"
  let ?m = "\<lparr>ModelDef.name = ''A'', model_fields = [?f], schema = None\<rparr>"
  have h1: "parse_prisma ''model A {\<newline>  u X[]?\<newline>}'' = Inr ([], [(''A'', ?m)])"
    by code_simp
  have h2: "(''A'', ?m) \<in> set [(''A'', ?m)]" by simp
  have h3: "?f \<in> set (model_fields ?m)" by simp
  have h4: "modifier_free ''X''" by (simp add: modifier_free_def)
  have h5: "split_ws ''u X[]?'' = [''u'', ''X[]?'']" by code_simp
  from parsed_type_name [OF h1 h2 h3] have t: "type_name ?f = ''X''"
  proof (elim exE conjE)
    fix fn tok rest
    assume a: "split_ws (raw_line ?f) = fn # tok # rest"
      and b: "\<forall>b. modifier_free b \<longrightarrow>
                (tok = b \<longrightarrow> type_name ?f = b \<and> \<not> is_optional ?f \<and> \<not> is_list ?f) \<and>
                (tok = b @ ''?'' \<longrightarrow> type_name ?f = b \<and> is_optional ?f \<and> \<not> is_list ?f) \<and>
                (tok = b @ ''[]'' \<longrightarrow> type_name ?f = b \<and> \<not> is_optional ?f \<and> is_list ?f) \<and>
                (tok = b @ ''[]?'' \<longrightarrow> type_name ?f = b \<and> is_optional ?f \<and> is_list ?f)"
    from a h5 have tok: "tok = ''X'' @ ''[]?''" by simp
    from b [rule_format, OF h4] tok show "type_name ?f = ''X''" by (elim conjE) simp
  qed
  show ?thesis by (rule conjI [OF h1 conjI [OF h5 conjI [OF h4 t]]])
qed



end
